theory Spec2Isabelle
  imports Complex_Main "HOL-Library.Word" "HOL-Library.Log_Nat"
begin

unbundle bit_operations_syntax

section \<open>Data model of package wav\<close>

text \<open>
  The WAV collaborator of go-sq-tool (\<^verbatim>\<open>internal/wav/wav.go\<close>) is embedded as pure
  functions over byte lists: an \<^verbatim>\<open>io.Reader\<close> is the list of bytes it still holds, an
  \<^verbatim>\<open>io.Writer\<close> is the list of bytes written to it (a \<^verbatim>\<open>bytes.Buffer\<close>, whose writes do
  not fail). Go's \<^verbatim>\<open>int\<close> is taken as a 64 bit integer and modelled by \<open>int\<close>; the values
  converted to it here (\<^verbatim>\<open>uint16\<close>, \<^verbatim>\<open>uint32\<close>) fit.
\<close>

type_synonym byte = "8 word"
type_synonym uint16 = "16 word"
type_synonym int16 = "16 word"
type_synonym uint32 = "32 word"
type_synonym int32 = "32 word"

text \<open>
  A \<^verbatim>\<open>float64\<close> is a real number or one of the three special values; the two zeros are
  one value. Arithmetic rounds as IEEE 754 binary64 does (\<open>round64\<close> below): the exact
  result goes to the nearest value with a 53 bit significand, halves to the even one.
\<close>

datatype float64 = Finite real | PosInf | NegInf | NaN

fun IsNaN :: "float64 \<Rightarrow> bool" where
  "IsNaN NaN = True"
| "IsNaN _ = False"

text \<open>\<^verbatim>\<open>math.IsInf(f, 0)\<close>: either infinity.\<close>

fun IsInf :: "float64 \<Rightarrow> bool" where
  "IsInf PosInf = True"
| "IsInf NegInf = True"
| "IsInf _ = False"

text \<open>The comparisons of Go: every comparison with NaN is false.\<close>

fun lt64 :: "float64 \<Rightarrow> float64 \<Rightarrow> bool" where
  "lt64 NaN _ = False"
| "lt64 _ NaN = False"
| "lt64 (Finite x) (Finite y) = (x < y)"
| "lt64 (Finite x) PosInf = True"
| "lt64 (Finite x) NegInf = False"
| "lt64 PosInf _ = False"
| "lt64 NegInf NegInf = False"
| "lt64 NegInf _ = True"

definition gt64 :: "float64 \<Rightarrow> float64 \<Rightarrow> bool" where
  "gt64 a b = lt64 b a"

definition le64 :: "float64 \<Rightarrow> float64 \<Rightarrow> bool" where
  "le64 a b = (\<not> IsNaN a \<and> \<not> IsNaN b \<and> \<not> lt64 b a)"

definition ge64 :: "float64 \<Rightarrow> float64 \<Rightarrow> bool" where
  "ge64 a b = le64 b a"

text \<open>
  Rounding a real number to binary64. \<open>binade x\<close> is the exponent \<open>e\<close> with
  \<open>2^e \<le> |x| < 2^(e+1)\<close> (lemma \<open>binade_bounds\<close>), computed from the bit length of the
  integer part of \<open>|x|\<close> or of \<open>1 / |x|\<close>. Around \<open>x\<close> the binary64 values are the
  multiples of \<open>2^(e - 52)\<close>, and of \<open>2^(-1074)\<close> below the normal range; \<open>x\<close> goes to the
  nearest multiple, a tie to the even one, and to an infinity when the result reaches
  \<open>2^1024\<close>.
\<close>

definition roundHalfEven :: "real \<Rightarrow> int" where
  "roundHalfEven x =
     (let f = \<lfloor>x\<rfloor>; d = x - of_int f in
      if d < 1 / 2 then f else if 1 / 2 < d then f + 1 else if even f then f else f + 1)"

definition binade :: "real \<Rightarrow> int" where
  "binade x = (if 1 \<le> \<bar>x\<bar> then bitlen \<lfloor>\<bar>x\<bar>\<rfloor> - 1 else - bitlen (\<lceil>1 / \<bar>x\<bar>\<rceil> - 1))"

definition huge :: real where
  "huge = 2 ^ 1024"

lemma huge_code [code]:
  "huge = 0x10000000000000000000000000000000000000000000000000000000000000000000000000000000000000000000000000000000000000000000000000000000000000000000000000000000000000000000000000000000000000000000000000000000000000000000000000000000000000000000000000000000000000000"
  unfolding huge_def by simp

definition round64 :: "real \<Rightarrow> float64" where
  "round64 x =
     (if x = 0 then Finite 0
      else
        let q = 2 powi (max (binade x) (- 1022) - 52);
            y = of_int (roundHalfEven (x / q)) * q
        in if huge \<le> \<bar>y\<bar> then (if 0 < x then PosInf else NegInf) else Finite y)"

text \<open>Product and quotient, with the special values of IEEE 754.\<close>

fun sgnInf :: "real \<Rightarrow> float64" where
  "sgnInf s = (if s = 0 then NaN else if 0 < s then PosInf else NegInf)"

fun signOf :: "float64 \<Rightarrow> real" where
  "signOf (Finite x) = sgn x"
| "signOf PosInf = 1"
| "signOf NegInf = -1"
| "signOf NaN = 0"

fun mul64 :: "float64 \<Rightarrow> float64 \<Rightarrow> float64" where
  "mul64 NaN _ = NaN"
| "mul64 _ NaN = NaN"
| "mul64 (Finite x) (Finite y) = round64 (x * y)"
| "mul64 a b = sgnInf (signOf a * signOf b)"

fun div64 :: "float64 \<Rightarrow> float64 \<Rightarrow> float64" where
  "div64 NaN _ = NaN"
| "div64 _ NaN = NaN"
| "div64 (Finite x) (Finite y) = (if y = 0 then sgnInf x else round64 (x / y))"
| "div64 (Finite x) _ = Finite 0"
| "div64 a (Finite y) = sgnInf (signOf a * (if y < 0 then -1 else 1))"
| "div64 _ _ = NaN"

text \<open>\<^verbatim>\<open>math.Round\<close>: the nearest integer, halves away from zero; special values unchanged.\<close>

definition roundHalfAway :: "real \<Rightarrow> int" where
  "roundHalfAway x = (if x < 0 then - \<lfloor>- x + 1 / 2\<rfloor> else \<lfloor>x + 1 / 2\<rfloor>)"

fun Round :: "float64 \<Rightarrow> float64" where
  "Round (Finite x) = Finite (of_int (roundHalfAway x))"
| "Round v = v"

text \<open>
  The conversion \<^verbatim>\<open>int16(f)\<close> discards the fraction (towards zero). Go leaves the result
  open when the value does not fit or is not finite; \<open>floatToPCM16\<close> never converts
  such a value, and the model returns the wrapped integer and 0 there.
\<close>

definition truncToInt :: "real \<Rightarrow> int" where
  "truncToInt x = (if x < 0 then - \<lfloor>- x\<rfloor> else \<lfloor>x\<rfloor>)"

fun toInt16 :: "float64 \<Rightarrow> int16" where
  "toInt16 (Finite x) = word_of_int (truncToInt x)"
| "toInt16 _ = 0"

definition ofInt :: "int \<Rightarrow> float64" where
  "ofInt i = Finite (of_int i)"

subsection \<open>floatToPCM16\<close>

definition floatToPCM16 :: "float64 \<Rightarrow> int16" where
  "floatToPCM16 v0 =
     (let v = (if IsNaN v0 \<or> IsInf v0 then Finite 0 else v0) in
      if ge64 v (Finite 1) then 32767
      else if le64 v (Finite (- 1)) then - 32768
      else toInt16 (Round (mul64 v (Finite 32767))))"

text \<open>The conversion of the PCM16 read path: \<^verbatim>\<open>float64(v) / 32768.0\<close>.\<close>

definition pcm16ToFloat :: "int16 \<Rightarrow> float64" where
  "pcm16ToFloat v = div64 (ofInt (sint v)) (Finite 32768)"

subsection \<open>Readers and writers over byte lists\<close>

datatype ioError = EOF | ErrUnexpectedEOF

text \<open>
  \<^verbatim>\<open>io.ReadFull\<close> fills a buffer of \<open>n\<close> bytes: \<^verbatim>\<open>io.EOF\<close> when no byte was read,
  \<^verbatim>\<open>io.ErrUnexpectedEOF\<close> when the stream ends inside the buffer.
\<close>

definition ReadFull :: "nat \<Rightarrow> byte list \<Rightarrow> ioError + (byte list \<times> byte list)" where
  "ReadFull n r =
     (if n \<le> length r then Inr (take n r, drop n r)
      else if r = [] then Inl EOF else Inl ErrUnexpectedEOF)"

text \<open>\<^verbatim>\<open>io.CopyN(io.Discard, br, n)\<close>: \<^verbatim>\<open>io.EOF\<close> when fewer than \<open>n\<close> bytes are left.\<close>

definition CopyN :: "nat \<Rightarrow> byte list \<Rightarrow> ioError + byte list" where
  "CopyN n r = (if n \<le> length r then Inr (drop n r) else Inl EOF)"

definition ReadByte :: "byte list \<Rightarrow> ioError + (byte \<times> byte list)" where
  "ReadByte r = (case r of [] \<Rightarrow> Inl EOF | b # r' \<Rightarrow> Inr (b, r'))"

text \<open>\<^verbatim>\<open>binary.LittleEndian\<close>.\<close>

definition Uint16 :: "byte list \<Rightarrow> uint16" where
  "Uint16 b = ucast (b ! 0) OR push_bit 8 (ucast (b ! 1))"

definition Uint32 :: "byte list \<Rightarrow> uint32" where
  "Uint32 b = ucast (b ! 0) OR push_bit 8 (ucast (b ! 1)) OR push_bit 16 (ucast (b ! 2))
     OR push_bit 24 (ucast (b ! 3))"

definition PutUint16 :: "uint16 \<Rightarrow> byte list" where
  "PutUint16 v = [ucast v, ucast (drop_bit 8 v)]"

definition PutUint32 :: "uint32 \<Rightarrow> byte list" where
  "PutUint32 v = [ucast v, ucast (drop_bit 8 v), ucast (drop_bit 16 v), ucast (drop_bit 24 v)]"

text \<open>\<^verbatim>\<open>binary.Read\<close> into a 16 or 32 bit variable: \<^verbatim>\<open>io.ReadFull\<close>, then decode.\<close>

definition readUint16 :: "byte list \<Rightarrow> ioError + (uint16 \<times> byte list)" where
  "readUint16 r = (case ReadFull 2 r of Inl e \<Rightarrow> Inl e | Inr (b, r') \<Rightarrow> Inr (Uint16 b, r'))"

definition readUint32 :: "byte list \<Rightarrow> ioError + (uint32 \<times> byte list)" where
  "readUint32 r = (case ReadFull 4 r of Inl e \<Rightarrow> Inl e | Inr (b, r') \<Rightarrow> Inr (Uint32 b, r'))"

definition writeString :: "string \<Rightarrow> byte list" where
  "writeString s = map of_char s"

subsection \<open>Results\<close>

record AudioData =
  SampleRate :: uint32
  Samples :: "float64 list list"
  NumSamples :: int

record wavFormat =
  audioFormat :: uint16
  numChannels :: uint16
  sampleRate :: uint32
  byteRate :: uint32
  blockAlign :: uint16
  bitsPerSample :: uint16

text \<open>One constructor for each error message of the package, with the values it prints.\<close>

datatype wavError =
    ReadRIFFHeader ioError
  | NotRIFF
  | ReadRIFFSize ioError
  | ReadWAVEHeader ioError
  | NotWAVE
  | ReadChunkID ioError
  | ReadChunkSize ioError
  | InvalidFmtChunkSize uint32
  | ReadAudioFormat ioError
  | ReadNumChannels ioError
  | ReadSampleRate ioError
  | ReadByteRate ioError
  | ReadBlockAlign ioError
  | ReadBitsPerSample ioError
  | SkipFmtExtension ioError
  | DataBeforeFmt
  | ChannelMismatch int uint16
  | InvalidBlockAlign
  | DataNotAligned
  | ReadPCM16Sample ioError
  | ReadPCM24Sample ioError
  | UnsupportedPCMBitDepth uint16
  | UnsupportedFloatBitDepth uint16
  | ReadFloat32Sample ioError
  | UnsupportedAudioFormat uint16
  | ReadDataPadByte ioError
  | SkipChunk "byte list" ioError
  | ReadPadByte ioError
  | NoDataChunk
  | OutputChannels int nat
  | NegativeNumSamples
  | ChannelTooShort nat nat int
  | FailedToReadWAV wavError

text \<open>\<^verbatim>\<open>if err != nil { return nil, fmt.Errorf("...: %w", err) }\<close> and the code after it.\<close>

definition orErr :: "(ioError \<Rightarrow> wavError) \<Rightarrow> ioError + 'a \<Rightarrow> wavError + 'a" where
  "orErr w m = (case m of Inl e \<Rightarrow> Inl (w e) | Inr x \<Rightarrow> Inr x)"

definition bindE :: "'e + 'a \<Rightarrow> ('a \<Rightarrow> 'e + 'b) \<Rightarrow> 'e + 'b" where
  "bindE m f = (case m of Inl e \<Rightarrow> Inl e | Inr x \<Rightarrow> f x)"

lemma bindE_cong [fundef_cong]:
  "m = m' \<Longrightarrow> (\<And>x. m' = Inr x \<Longrightarrow> f x = f' x) \<Longrightarrow> bindE m f = bindE m' f'"
  by (simp add: bindE_def split: sum.splits)

subsection \<open>Decoding samples\<close>

text \<open>PCM16: \<^verbatim>\<open>binary.Read\<close> of an \<^verbatim>\<open>int16\<close>, then \<^verbatim>\<open>float64(v) / 32768.0\<close>.\<close>

definition readPCM16 :: "byte list \<Rightarrow> ioError + (float64 \<times> byte list)" where
  "readPCM16 r =
     (case readUint16 r of Inl e \<Rightarrow> Inl e | Inr (v, r') \<Rightarrow> Inr (pcm16ToFloat v, r'))"

definition readPCM24Sample :: "byte list \<Rightarrow> ioError + (int32 \<times> byte list)" where
  "readPCM24Sample r =
     (case ReadFull 3 r of
        Inl e \<Rightarrow> Inl e
      | Inr (b, r') \<Rightarrow>
          let v = ucast (b ! 0) OR push_bit 8 (ucast (b ! 1)) OR push_bit 16 (ucast (b ! 2));
              v' = (if v AND 0x800000 \<noteq> 0 then v OR NOT 0xffffff else v)
          in Inr (v', r'))"

text \<open>PCM24: \<^verbatim>\<open>float64(v) / 8388608.0\<close>.\<close>

definition readPCM24 :: "byte list \<Rightarrow> ioError + (float64 \<times> byte list)" where
  "readPCM24 r =
     (case readPCM24Sample r of
        Inl e \<Rightarrow> Inl e
      | Inr (v, r') \<Rightarrow> Inr (div64 (ofInt (sint v)) (Finite 8388608), r'))"

text \<open>
  \<^verbatim>\<open>float64(math.Float32frombits(w))\<close>: the value of a binary32 pattern, which binary64
  holds exactly.
\<close>

definition Float32frombits :: "uint32 \<Rightarrow> float64" where
  "Float32frombits w =
     (let neg = bit w 31;
          e = unat (drop_bit 23 w AND 0xff);
          m = unat (w AND 0x7fffff);
          s = (if neg then - 1 else 1)
      in if e = 255 then (if m = 0 then (if neg then NegInf else PosInf) else NaN)
         else if e = 0 then Finite (s * real m / 2 ^ 149)
         else if e < 150 then Finite (s * real (2 ^ 23 + m) / 2 ^ (150 - e))
         else Finite (s * real (2 ^ 23 + m) * 2 ^ (e - 150)))"

text \<open>The float32 read path after the conversion: NaN and infinities to 0, then the clamp.\<close>

definition sanitizeRead :: "float64 \<Rightarrow> float64" where
  "sanitizeRead v =
     (let fv = (if IsNaN v \<or> IsInf v then Finite 0 else v) in
      if gt64 fv (Finite 1) then Finite 1
      else if lt64 fv (Finite (- 1)) then Finite (- 1)
      else fv)"

definition readFloat32 :: "byte list \<Rightarrow> ioError + (float64 \<times> byte list)" where
  "readFloat32 r =
     (case readUint32 r of
        Inl e \<Rightarrow> Inl e
      | Inr (w, r') \<Rightarrow> Inr (sanitizeRead (Float32frombits w), r'))"

text \<open>
  The three sample loops of \<^verbatim>\<open>readWAV\<close> have one shape,
  \<^verbatim>\<open>for i := range numFrames { for ch := range expectedChannels { v := read; samplesByChannel[ch][i] = v } }\<close>,
  and differ in the sample they read: \<open>readFrames\<close> is that loop over the frame indices
  and \<open>readChannels\<close> its body over the channel indices. The first failed read ends both.
\<close>

fun readChannels :: "(byte list \<Rightarrow> ioError + (float64 \<times> byte list)) \<Rightarrow> nat \<Rightarrow> nat list \<Rightarrow>
    float64 list list \<Rightarrow> byte list \<Rightarrow> ioError + (float64 list list \<times> byte list)" where
  "readChannels rd i [] S r = Inr (S, r)"
| "readChannels rd i (ch # chs) S r =
     (case rd r of
        Inl e \<Rightarrow> Inl e
      | Inr (v, r') \<Rightarrow> readChannels rd i chs (S[ch := (S ! ch)[i := v]]) r')"

fun readFrames :: "(byte list \<Rightarrow> ioError + (float64 \<times> byte list)) \<Rightarrow> nat list \<Rightarrow> nat list \<Rightarrow>
    float64 list list \<Rightarrow> byte list \<Rightarrow> ioError + (float64 list list \<times> byte list)" where
  "readFrames rd [] chs S r = Inr (S, r)"
| "readFrames rd (i # is) chs S r =
     (case readChannels rd i chs S r of
        Inl e \<Rightarrow> Inl e
      | Inr (S', r') \<Rightarrow> readFrames rd is chs S' r')"

text \<open>
  The \<^verbatim>\<open>case 1: // PCM\<close> branch is the one place where the two versions of
  \<^verbatim>\<open>readWAV\<close> differ, so the reader takes it as a parameter: \<open>decodePCM\<close> is the branch of
  \<^verbatim>\<open>internal/wav/wav.go\<close>, \<open>decodePCM_old\<close> the branch of the earlier version of the file.
\<close>

type_synonym pcmDecoder = "uint16 \<Rightarrow> nat \<Rightarrow> nat \<Rightarrow> float64 list list \<Rightarrow> byte list \<Rightarrow>
    wavError + (float64 list list \<times> byte list)"

definition decodePCM :: pcmDecoder where
  "decodePCM bits numFrames nch S r =
     (if bits = 16 then
        orErr ReadPCM16Sample (readFrames readPCM16 [0..<numFrames] [0..<nch] S r)
      else if bits = 24 then
        orErr ReadPCM24Sample (readFrames readPCM24 [0..<numFrames] [0..<nch] S r)
      else Inl (UnsupportedPCMBitDepth bits))"

definition decodePCM_old :: pcmDecoder where
  "decodePCM_old bits numFrames nch S r =
     (if bits \<noteq> 16 then Inl (UnsupportedPCMBitDepth bits)
      else orErr ReadPCM16Sample (readFrames readPCM16 [0..<numFrames] [0..<nch] S r))"

definition decodeSamples :: "pcmDecoder \<Rightarrow> wavFormat \<Rightarrow> nat \<Rightarrow> nat \<Rightarrow> float64 list list \<Rightarrow>
    byte list \<Rightarrow> wavError + (float64 list list \<times> byte list)" where
  "decodeSamples pcm f numFrames nch S r =
     (if audioFormat f = 1 then pcm (bitsPerSample f) numFrames nch S r
      else if audioFormat f = 3 then
        (if bitsPerSample f \<noteq> 32 then Inl (UnsupportedFloatBitDepth (bitsPerSample f))
         else orErr ReadFloat32Sample (readFrames readFloat32 [0..<numFrames] [0..<nch] S r))
      else Inl (UnsupportedAudioFormat (audioFormat f)))"

subsection \<open>readWAV\<close>

definition readFmtChunk :: "uint32 \<Rightarrow> byte list \<Rightarrow> wavError + (wavFormat \<times> byte list)" where
  "readFmtChunk chunkSize r0 =
     (if chunkSize < 16 then Inl (InvalidFmtChunkSize chunkSize)
      else
        bindE (orErr ReadAudioFormat (readUint16 r0)) (\<lambda>(af, r1).
        bindE (orErr ReadNumChannels (readUint16 r1)) (\<lambda>(nc, r2).
        bindE (orErr ReadSampleRate (readUint32 r2)) (\<lambda>(sr, r3).
        bindE (orErr ReadByteRate (readUint32 r3)) (\<lambda>(br, r4).
        bindE (orErr ReadBlockAlign (readUint16 r4)) (\<lambda>(ba, r5).
        bindE (orErr ReadBitsPerSample (readUint16 r5)) (\<lambda>(bps, r6).
        let remaining = uint chunkSize - 16 in
        bindE (if remaining > 0 then orErr SkipFmtExtension (CopyN (nat remaining) r6)
               else Inr r6) (\<lambda>r7.
        Inr (\<lparr>audioFormat = af, numChannels = nc, sampleRate = sr, byteRate = br,
              blockAlign = ba, bitsPerSample = bps\<rparr>, r7)))))))))"

definition readDataChunk :: "pcmDecoder \<Rightarrow> wavFormat option \<Rightarrow> int \<Rightarrow> uint32 \<Rightarrow> byte list \<Rightarrow>
    wavError + AudioData" where
  "readDataChunk pcm fmtChunk expectedChannels chunkSize r =
     (case fmtChunk of
        None \<Rightarrow> Inl DataBeforeFmt
      | Some f \<Rightarrow>
          if uint (numChannels f) \<noteq> expectedChannels then
            Inl (ChannelMismatch expectedChannels (numChannels f))
          else if blockAlign f = 0 then Inl InvalidBlockAlign
          else if chunkSize mod ucast (blockAlign f) \<noteq> 0 then Inl DataNotAligned
          else
            let numFrames = unat (chunkSize div ucast (blockAlign f));
                nch = nat expectedChannels;
                samplesByChannel = replicate nch (replicate numFrames (Finite 0))
            in
            bindE (decodeSamples pcm f numFrames nch samplesByChannel r) (\<lambda>(S, r').
            bindE (if chunkSize mod 2 = 1 then orErr ReadDataPadByte (ReadByte r')
                   else Inr (0, r')) (\<lambda>_.
            Inr \<lparr>SampleRate = sampleRate f, Samples = S, NumSamples = int numFrames\<rparr>)))"

text \<open>Skipping an unknown chunk, and its pad byte when the size is odd.\<close>

definition skipChunk :: "byte list \<Rightarrow> uint32 \<Rightarrow> byte list \<Rightarrow> wavError + byte list" where
  "skipChunk chunkID chunkSize r =
     bindE (orErr (SkipChunk chunkID) (CopyN (unat chunkSize) r)) (\<lambda>r'.
       if chunkSize mod 2 = 1 then
         bindE (orErr ReadPadByte (ReadByte r')) (\<lambda>(_, r''). Inr r'')
       else Inr r')"

lemma ReadFull_length:
  "ReadFull n r = Inr (b, r') \<Longrightarrow> length b = n \<and> length r' + n = length r \<and> r = b @ r'"
  by (auto simp: ReadFull_def split: if_splits)

lemma readUint32_length: "readUint32 r = Inr (w, r') \<Longrightarrow> length r' + 4 = length r"
  by (auto simp: readUint32_def split: sum.splits dest: ReadFull_length)

lemma readUint16_length: "readUint16 r = Inr (w, r') \<Longrightarrow> length r' + 2 = length r"
  by (auto simp: readUint16_def split: sum.splits dest: ReadFull_length)

lemma CopyN_length: "CopyN n r = Inr r' \<Longrightarrow> length r' + n = length r"
  by (auto simp: CopyN_def split: if_splits)

lemma orErr_Inr [simp]: "orErr w m = Inr x \<longleftrightarrow> m = Inr x"
  by (simp add: orErr_def split: sum.splits)

lemma bindE_Inr: "bindE m f = Inr y \<longleftrightarrow> (\<exists>x. m = Inr x \<and> f x = Inr y)"
  by (simp add: bindE_def split: sum.splits)

lemma readFmtChunk_length:
  assumes "readFmtChunk chunkSize r = Inr (f, r')"
  shows "length r' \<le> length r"
  using assms
  by (auto simp: readFmtChunk_def bindE_Inr Let_def split: if_splits
      dest!: readUint16_length readUint32_length CopyN_length)

lemma mod2_eq1_odd: "(w :: uint32) mod 2 = 1 \<longleftrightarrow> odd w"
  by (simp add: odd_iff_mod_2_eq_one)

lemma skipChunk_length: "skipChunk chunkID chunkSize r = Inr r' \<Longrightarrow> length r' \<le> length r"
  by (auto simp: skipChunk_def bindE_Inr ReadByte_def mod2_eq1_odd split: if_splits list.splits
      dest!: CopyN_length)

text \<open>
  The chunk loop \<^verbatim>\<open>for { ... }\<close> of \<^verbatim>\<open>readWAV\<close>, with \<^verbatim>\<open>fmtChunk\<close> as its state. Reading the
  chunk id ends the loop at \<^verbatim>\<open>io.EOF\<close> (no byte left) and fails on a partial id; every
  turn consumes the eight bytes of id and size, so the loop ends.
\<close>

function readChunks :: "pcmDecoder \<Rightarrow> wavFormat option \<Rightarrow> int \<Rightarrow> byte list \<Rightarrow> wavError + AudioData"
  where
  "readChunks pcm fmtChunk expectedChannels r =
     (case ReadFull 4 r of
        Inl EOF \<Rightarrow> Inl NoDataChunk
      | Inl ErrUnexpectedEOF \<Rightarrow> Inl (ReadChunkID ErrUnexpectedEOF)
      | Inr (chunkID, r1) \<Rightarrow>
          bindE (orErr ReadChunkSize (readUint32 r1)) (\<lambda>(chunkSize, r2).
            if chunkID = writeString ''fmt '' then
              bindE (readFmtChunk chunkSize r2) (\<lambda>(f, r3).
                readChunks pcm (Some f) expectedChannels r3)
            else if chunkID = writeString ''data'' then
              readDataChunk pcm fmtChunk expectedChannels chunkSize r2
            else
              bindE (skipChunk chunkID chunkSize r2) (\<lambda>r3.
                readChunks pcm fmtChunk expectedChannels r3)))"
  by pat_completeness auto
termination
proof (relation "measure (\<lambda>(pcm, fmtChunk, expectedChannels, r). length r)")
  show "wf (measure (\<lambda>(pcm, fmtChunk, expectedChannels, r). length r))"
    by simp
next
  fix pcm :: pcmDecoder and fmtChunk :: "wavFormat option" and expectedChannels :: int
    and r :: "byte list" and b x chunkID r1 y chunkSize r2 z f r3
  assume "ReadFull 4 r = Inr b" "(chunkID, r1) = b"
    "orErr ReadChunkSize (readUint32 r1) = Inr y" "(chunkSize, r2) = y"
    "readFmtChunk chunkSize r2 = Inr z" "(f, r3) = z"
  then show "((pcm, Some f, expectedChannels, r3), (pcm, fmtChunk, expectedChannels, r))
      \<in> measure (\<lambda>(pcm, fmtChunk, expectedChannels, r). length r)"
    by (auto dest!: ReadFull_length readUint32_length readFmtChunk_length)
next
  fix pcm :: pcmDecoder and fmtChunk :: "wavFormat option" and expectedChannels :: int
    and r :: "byte list" and b chunkID r1 y chunkSize r2 r3
  assume "ReadFull 4 r = Inr b" "(chunkID, r1) = b"
    "orErr ReadChunkSize (readUint32 r1) = Inr y" "(chunkSize, r2) = y"
    "skipChunk chunkID chunkSize r2 = Inr r3"
  then show "((pcm, fmtChunk, expectedChannels, r3), (pcm, fmtChunk, expectedChannels, r))
      \<in> measure (\<lambda>(pcm, fmtChunk, expectedChannels, r). length r)"
    by (auto dest!: ReadFull_length readUint32_length skipChunk_length)
qed

declare readChunks.simps [simp del]

definition readWAVWith :: "pcmDecoder \<Rightarrow> byte list \<Rightarrow> int \<Rightarrow> wavError + AudioData" where
  "readWAVWith pcm r expectedChannels =
     bindE (orErr ReadRIFFHeader (ReadFull 4 r)) (\<lambda>(riff, r1).
       if riff \<noteq> writeString ''RIFF'' then Inl NotRIFF
       else
         bindE (orErr ReadRIFFSize (readUint32 r1)) (\<lambda>(_, r2).
         bindE (orErr ReadWAVEHeader (ReadFull 4 r2)) (\<lambda>(wave, r3).
           if wave \<noteq> writeString ''WAVE'' then Inl NotWAVE
           else readChunks pcm None expectedChannels r3)))"

text \<open>\<^verbatim>\<open>readWAV\<close> of \<^verbatim>\<open>internal/wav/wav.go\<close>.\<close>

definition readWAV :: "byte list \<Rightarrow> int \<Rightarrow> wavError + AudioData" where
  "readWAV = readWAVWith decodePCM"

text \<open>\<^verbatim>\<open>readWAV\<close> of the earlier version of the file (\<^verbatim>\<open>src/unnamed/part_000\<close>).\<close>

definition readWAV_old :: "byte list \<Rightarrow> int \<Rightarrow> wavError + AudioData" where
  "readWAV_old = readWAVWith decodePCM_old"

definition ReadWAVFromReader :: "byte list \<Rightarrow> int \<Rightarrow> wavError + AudioData" where
  "ReadWAVFromReader r channels =
     (case readWAV r channels of Inl err \<Rightarrow> Inl (FailedToReadWAV err) | Inr audioData \<Rightarrow> Inr audioData)"

definition ReadWAVBytes :: "byte list \<Rightarrow> int \<Rightarrow> wavError + AudioData" where
  "ReadWAVBytes data channels = ReadWAVFromReader data channels"

subsection \<open>Writers\<close>

text \<open>The checks both writers start with.\<close>

definition checkOutput :: "AudioData \<Rightarrow> int \<Rightarrow> wavError option" where
  "checkOutput data channels =
     (if int (length (Samples data)) \<noteq> channels then
        Some (OutputChannels channels (length (Samples data)))
      else if NumSamples data < 0 then Some NegativeNumSamples
      else
        (case find (\<lambda>ch. int (length (Samples data ! ch)) < NumSamples data) [0..<nat channels] of
           Some ch \<Rightarrow> Some (ChannelTooShort ch (length (Samples data ! ch)) (NumSamples data))
         | None \<Rightarrow> None))"

text \<open>The interleaved samples: frame by frame, channel by channel.\<close>

definition interleave :: "(float64 \<Rightarrow> byte list) \<Rightarrow> AudioData \<Rightarrow> int \<Rightarrow> byte list" where
  "interleave enc data channels =
     concat (map (\<lambda>i. concat (map (\<lambda>ch. enc (Samples data ! ch ! i)) [0..<nat channels]))
       [0..<nat (NumSamples data)])"

definition writeWAVPCM16ToWriter :: "AudioData \<Rightarrow> int \<Rightarrow> wavError + byte list" where
  "writeWAVPCM16ToWriter data channels =
     (case checkOutput data channels of
        Some err \<Rightarrow> Inl err
      | None \<Rightarrow>
          let numChannels = (word_of_int channels :: uint16);
              bitsPerSample = (16 :: uint16);
              blockAlign = numChannels * (bitsPerSample div 8);
              byteRate = SampleRate data * ucast blockAlign;
              audioFormat = (1 :: uint16);
              dataSize = (word_of_int (NumSamples data) :: uint32) * ucast blockAlign
          in Inr (writeString ''RIFF'' @ PutUint32 (36 + dataSize) @ writeString ''WAVE''
               @ writeString ''fmt '' @ PutUint32 16 @ PutUint16 audioFormat
               @ PutUint16 numChannels @ PutUint32 (SampleRate data) @ PutUint32 byteRate
               @ PutUint16 blockAlign @ PutUint16 bitsPerSample
               @ writeString ''data'' @ PutUint32 dataSize
               @ interleave (\<lambda>v. PutUint16 (floatToPCM16 v)) data channels))"

definition WriteStereoWAVToWriter :: "AudioData \<Rightarrow> wavError + byte list" where
  "WriteStereoWAVToWriter data = writeWAVPCM16ToWriter data 2"

definition WriteWAVToWriter :: "AudioData \<Rightarrow> wavError + byte list" where
  "WriteWAVToWriter data = writeWAVPCM16ToWriter data 4"

text \<open>
  The value the float32 writer converts and writes for a sample: the chain of
  \<^verbatim>\<open>if val > 1.0 ... else if val < -1.0 ... else if math.IsNaN(val) || math.IsInf(val, 0)\<close>.
\<close>

definition clampWrite :: "float64 \<Rightarrow> float64" where
  "clampWrite val =
     (if gt64 val (Finite 1) then Finite 1
      else if lt64 val (Finite (- 1)) then Finite (- 1)
      else if IsNaN val \<or> IsInf val then Finite 0
      else val)"

text \<open>
  The float32 writer. The rounding of \<^verbatim>\<open>float32(val)\<close> to binary32 is outside the model
  of \<open>float64\<close>, so the writer takes \<open>float32bits\<close>, the bit pattern of
  \<^verbatim>\<open>float32(val)\<close>, as a parameter.
\<close>

definition writeWAVFloat32ToWriter :: "(float64 \<Rightarrow> uint32) \<Rightarrow> AudioData \<Rightarrow> int \<Rightarrow> wavError + byte list"
  where
  "writeWAVFloat32ToWriter float32bits data channels =
     (case checkOutput data channels of
        Some err \<Rightarrow> Inl err
      | None \<Rightarrow>
          let numChannels = (word_of_int channels :: uint16);
              bitsPerSample = (32 :: uint16);
              byteRate = SampleRate data * ucast numChannels * ucast (bitsPerSample div 8);
              blockAlign = numChannels * (bitsPerSample div 8);
              audioFormat = (3 :: uint16);
              dataSize = (word_of_int (NumSamples data) :: uint32) * ucast numChannels
                * ucast (bitsPerSample div 8)
          in Inr (writeString ''RIFF'' @ PutUint32 (36 + dataSize) @ writeString ''WAVE''
               @ writeString ''fmt '' @ PutUint32 16 @ PutUint16 audioFormat
               @ PutUint16 numChannels @ PutUint32 (SampleRate data) @ PutUint32 byteRate
               @ PutUint16 blockAlign @ PutUint16 bitsPerSample
               @ writeString ''data'' @ PutUint32 dataSize
               @ interleave (\<lambda>v. PutUint32 (float32bits (clampWrite v))) data channels))"

section \<open>Predicates of the specification\<close>

text \<open>The three bytes of a PCM24 sample, little endian, as an unsigned number.\<close>

definition le24 :: "byte \<Rightarrow> byte \<Rightarrow> byte \<Rightarrow> int" where
  "le24 b0 b1 b2 = uint b0 + 256 * uint b1 + 65536 * uint b2"

text \<open>A sample is a finite number between \<open>lo\<close> and \<open>hi\<close>.\<close>

definition sampleIn :: "real \<Rightarrow> real \<Rightarrow> float64 \<Rightarrow> bool" where
  "sampleIn lo hi v = (case v of Finite x \<Rightarrow> lo \<le> x \<and> x \<le> hi | _ \<Rightarrow> False)"

definition allSamples :: "(float64 \<Rightarrow> bool) \<Rightarrow> float64 list list \<Rightarrow> bool" where
  "allSamples P S = list_all (list_all P) S"

text \<open>
  The stereo frame of \<^verbatim>\<open>TestReadWAVChannels_StereoRoundTrip\<close>, the bytes the PCM16 writer
  produces for it, and the frame read back from them. A literal such as \<^verbatim>\<open>0.1\<close> denotes
  the binary64 value nearest to it.
\<close>

definition stereoIn :: AudioData where
  "stereoIn = \<lparr>SampleRate = 44100,
     Samples = [map round64 [0.0, 0.5, - 0.5, 1.0, - 1.0, 0.25, - 0.25],
                map round64 [0.1, - 0.1, 0.9, - 0.9, 0.0, 0.75, - 0.75]],
     NumSamples = 7\<rparr>"

definition stereoFile :: "byte list" where
  "stereoFile =
     [0x52, 0x49, 0x46, 0x46, 0x40, 0x00, 0x00, 0x00, 0x57, 0x41, 0x56, 0x45,
      0x66, 0x6d, 0x74, 0x20, 0x10, 0x00, 0x00, 0x00, 0x01, 0x00, 0x02, 0x00,
      0x44, 0xac, 0x00, 0x00, 0x10, 0xb1, 0x02, 0x00, 0x04, 0x00, 0x10, 0x00,
      0x64, 0x61, 0x74, 0x61, 0x1c, 0x00, 0x00, 0x00,
      0x00, 0x00, 0xcd, 0x0c, 0x00, 0x40, 0x33, 0xf3, 0x00, 0xc0, 0x32, 0x73, 0xff, 0x7f,
      0xce, 0x8c, 0x00, 0x80, 0x00, 0x00, 0x00, 0x20, 0xff, 0x5f, 0x00, 0xe0, 0x01, 0xa0]"

definition stereoOut :: AudioData where
  "stereoOut = \<lparr>SampleRate = 44100,
     Samples = [[Finite 0, Finite (1 / 2), Finite (- (1 / 2)), Finite (32767 / 32768), Finite (- 1),
                 Finite (1 / 4), Finite (- (1 / 4))],
                [Finite (3277 / 32768), Finite (- (3277 / 32768)), Finite (14745 / 16384),
                 Finite (- (14745 / 16384)), Finite 0, Finite (24575 / 32768),
                 Finite (- (24575 / 32768))]],
     NumSamples = 7\<rparr>"

section \<open>Rounding to binary64\<close>

lemma powi_nat: "0 \<le> b \<Longrightarrow> (2::real) powi b = 2 ^ nat b"
  by (simp add: power_int_def)

lemma binade_small:
  assumes "x \<noteq> 0" "\<not> 1 \<le> \<bar>x\<bar>"
  shows "2 powi binade x \<le> \<bar>x\<bar> \<and> \<bar>x\<bar> < 2 powi (binade x + 1)"
proof -
  define t where "t = 1 / \<bar>x\<bar>"
  have ax: "0 < \<bar>x\<bar>" "\<bar>x\<bar> < 1" using assms by linarith+
  then have t1: "1 < t" unfolding t_def by (simp only: less_divide_eq_1_pos)
  define n where "n = \<lceil>t\<rceil> - 1"
  have n: "0 < n" "real_of_int n < t" "t \<le> real_of_int n + 1"
    using t1 unfolding n_def by linarith+
  define b where "b = bitlen n"
  from bitlen_bounds [OF n(1)] have bb: "2 ^ nat (b - 1) \<le> n" "n < 2 ^ nat b"
    unfolding b_def by blast+
  have b1: "1 \<le> b" using n(1) unfolding b_def bitlen_alt_def by simp
  have e: "binade x = - b" using assms(2) unfolding binade_def b_def n_def t_def by (simp only: if_False)
  have "real_of_int (2 ^ nat (b - 1)) \<le> real_of_int n" using bb(1) by (rule of_int_le_iff [THEN iffD2])
  then have "(2::real) ^ nat (b - 1) \<le> real_of_int n" by simp
  with n(2) have lo: "2 ^ nat (b - 1) < t" by linarith
  have "n + 1 \<le> 2 ^ nat b" using bb(2) by linarith
  then have "real_of_int (n + 1) \<le> real_of_int (2 ^ nat b)" by (rule of_int_le_iff [THEN iffD2])
  then have "real_of_int n + 1 \<le> (2::real) ^ nat b" by simp
  with n(3) have hi: "t \<le> 2 ^ nat b" by linarith
  have x: "\<bar>x\<bar> = 1 / t" unfolding t_def by simp
  have tp: "0 < t" using t1 by linarith
  have p1: "(2::real) powi (- b) = 1 / 2 ^ nat b"
    unfolding power_int_minus_divide using b1 by (simp only: powi_nat)
  have eq: "- b + 1 = - (b - 1)" by linarith
  have p2: "(2::real) powi (- b + 1) = 1 / 2 ^ nat (b - 1)"
    unfolding eq power_int_minus_divide using b1 by (simp only: powi_nat)
  have "1 / 2 ^ nat b \<le> 1 / t" using hi tp by (intro divide_left_mono) simp_all
  moreover have "1 / t < 1 / 2 ^ nat (b - 1)" using lo tp by (intro divide_strict_left_mono) simp_all
  ultimately show ?thesis unfolding e p1 p2 x by blast
qed


lemma binade_large:
  assumes "x \<noteq> 0" "1 \<le> \<bar>x\<bar>"
  shows "2 powi binade x \<le> \<bar>x\<bar> \<and> \<bar>x\<bar> < 2 powi (binade x + 1)"
proof -
  note True = assms(2)
  define n where "n = \<lfloor>\<bar>x\<bar>\<rfloor>"
  have n: "0 < n" "real_of_int n \<le> \<bar>x\<bar>" "\<bar>x\<bar> < real_of_int n + 1"
    using True unfolding n_def by linarith+
  define b where "b = bitlen n"
  from bitlen_bounds [OF n(1)] have bb: "2 ^ nat (b - 1) \<le> n" "n < 2 ^ nat b"
    by (simp_all add: b_def)
  have b1: "1 \<le> b" using n(1) by (simp add: b_def bitlen_alt_def)
  have e: "binade x = b - 1" using True by (simp add: binade_def b_def n_def)
  have p1: "(2::real) powi (b - 1) = 2 ^ nat (b - 1)" using b1 by (simp add: power_int_def)
  have p2: "(2::real) powi (b - 1 + 1) = 2 ^ nat b" using b1 by (simp add: power_int_def)
  have "real_of_int (2 ^ nat (b - 1)) \<le> real_of_int n" using bb(1) by (rule of_int_le_iff [THEN iffD2])
  then have lo: "(2::real) ^ nat (b - 1) \<le> real_of_int n" by simp
  have "n + 1 \<le> 2 ^ nat b" using bb(2) by linarith
  then have "real_of_int (n + 1) \<le> real_of_int (2 ^ nat b)" by (rule of_int_le_iff [THEN iffD2])
  then have hi: "real_of_int n + 1 \<le> (2::real) ^ nat b" by simp
  show ?thesis unfolding e p1 p2 using n lo hi by linarith
qed


lemma roundHalfEven_near: "\<bar>real_of_int (roundHalfEven t) - t\<bar> \<le> 1 / 2"
  unfolding roundHalfEven_def Let_def by (simp; linarith)

lemma roundHalfEven_of_int [simp]: "roundHalfEven (real_of_int n) = n"
  by (simp add: roundHalfEven_def)


lemma binade_bounds:
  assumes "x \<noteq> 0"
  shows "2 powi binade x \<le> \<bar>x\<bar> \<and> \<bar>x\<bar> < 2 powi (binade x + 1)"
  using binade_large [OF assms] binade_small [OF assms] by blast

lemma powi_less_imp: "(2::real) powi a < 2 powi b \<Longrightarrow> a < b"
proof (rule ccontr)
  assume l: "(2::real) powi a < 2 powi b" and "\<not> a < b"
  then have "b \<le> a" by simp
  then have "(2::real) powi b \<le> 2 powi a" by (intro power_int_increasing) simp_all
  with l show False by simp
qed

lemma powi_half: "(2::real) powi (e - 52) / 2 = 2 powi (e - 53)"
proof -
  have "(2::real) powi (e - 52) = 2 powi (e - 53 + 1)" by simp
  also have "\<dots> = 2 powi (e - 53) * 2" by (subst power_int_add) simp_all
  finally show ?thesis by simp
qed

lemma round64_error:
  assumes "\<bar>x\<bar> < 2 powi (E + 1)" "- 1022 \<le> E" "E < 1023"
  shows "\<exists>y. round64 x = Finite y \<and> \<bar>y - x\<bar> \<le> 2 powi (E - 53)"
proof (cases "x = 0")
  case True
  then show ?thesis by (simp add: round64_def)
next
  case False
  define qe where "qe = max (binade x) (- 1022) - 52"
  define q :: real where "q = 2 powi qe"
  define n where "n = roundHalfEven (x / q)"
  define y where "y = real_of_int n * q"
  have qpos: "0 < q" by (simp add: q_def)
  from binade_bounds [OF False] assms(1) have "(2::real) powi binade x < 2 powi (E + 1)" by linarith
  then have "binade x < E + 1" by (rule powi_less_imp)
  then have "qe \<le> E - 52" using assms(2) by (simp add: qe_def)
  then have qle: "q \<le> 2 powi (E - 52)" unfolding q_def by (intro power_int_increasing) simp_all
  have "\<bar>real_of_int n - x / q\<bar> \<le> 1 / 2" unfolding n_def by (rule roundHalfEven_near)
  then have "\<bar>real_of_int n - x / q\<bar> * q \<le> 1 / 2 * q"
    using qpos by (intro mult_right_mono) simp_all
  moreover have "\<bar>real_of_int n - x / q\<bar> * q = \<bar>y - x\<bar>"
  proof -
    have "\<bar>real_of_int n - x / q\<bar> * q = \<bar>(real_of_int n - x / q) * q\<bar>"
      using qpos by (simp add: abs_mult)
    also have "(real_of_int n - x / q) * q = y - x"
      using qpos by (simp add: y_def left_diff_distrib)
    finally show ?thesis .
  qed
  ultimately have err: "\<bar>y - x\<bar> \<le> q / 2" by simp
  with qle have err2: "\<bar>y - x\<bar> \<le> 2 powi (E - 52) / 2" by linarith
  then have err3: "\<bar>y - x\<bar> \<le> 2 powi (E - 53)" by (simp only: powi_half)
  have "(2::real) powi (E + 1) \<le> 2 powi 1023" using assms(3) by (intro power_int_increasing) simp_all
  moreover have "(2::real) powi (E - 53) \<le> 2 powi 1023" using assms(3) by (intro power_int_increasing) simp_all
  ultimately have "\<bar>y\<bar> < 2 powi 1023 + 2 powi 1023" using err3 assms(1) by linarith
  also have "(2::real) powi 1023 + 2 powi 1023 = huge" by (simp add: huge_def)
  finally have "\<not> huge \<le> \<bar>y\<bar>" by simp
  then have "round64 x = Finite y"
    using False by (simp add: round64_def Let_def qe_def [symmetric] q_def [symmetric] n_def [symmetric] y_def [symmetric])
  with err3 show ?thesis by blast
qed

lemma round64_exact:
  assumes x: "x = real_of_int m * 2 powi j" and m: "\<bar>m\<bar> < 2 ^ 53" and j: "- 1074 \<le> j"
    and h: "\<bar>x\<bar> < huge"
  shows "round64 x = Finite x"
proof (cases "x = 0")
  case True
  then show ?thesis by (simp add: round64_def)
next
  case False
  define qe where "qe = max (binade x) (- 1022) - 52"
  define q :: real where "q = 2 powi qe"
  have qpos: "0 < q" by (simp add: q_def)
  have a: "\<bar>x\<bar> = real_of_int \<bar>m\<bar> * 2 powi j" unfolding x by (simp add: abs_mult)
  have "real_of_int \<bar>m\<bar> < real_of_int (2 ^ 53)" using m by (rule of_int_less_iff [THEN iffD2])
  then have "real_of_int \<bar>m\<bar> < 2 ^ 53" by simp
  then have b: "real_of_int \<bar>m\<bar> * 2 powi j < 2 ^ 53 * 2 powi j"
    by (rule mult_strict_right_mono) simp
  have c: "(2::real) ^ 53 * 2 powi j = 2 powi (j + 53)"
    by (subst power_int_add) simp_all
  have "\<bar>x\<bar> < 2 powi (j + 53)" unfolding a c [symmetric] by (rule b)
  with binade_bounds [OF False] have "(2::real) powi binade x < 2 powi (j + 53)" by linarith
  then have "binade x < j + 53" by (rule powi_less_imp)
  then have qj: "qe \<le> j" using j by (simp add: qe_def)
  define k where "k = nat (j - qe)"
  have "(2::real) powi j = 2 powi (qe + int k)" using qj by (simp add: k_def)
  also have "\<dots> = q * 2 ^ k" unfolding q_def by (subst power_int_add) simp_all
  finally have pj: "(2::real) powi j = q * 2 ^ k" .
  have "x / q = real_of_int (m * 2 ^ k)" unfolding x pj using qpos by simp
  then have "roundHalfEven (x / q) = m * 2 ^ k" by (simp only: roundHalfEven_of_int)
  then have y: "real_of_int (roundHalfEven (x / q)) * q = x" unfolding x pj by simp
  show ?thesis
    using False h
    by (simp add: round64_def Let_def qe_def [symmetric] q_def [symmetric] y)
qed


lemma huge_gt: "x \<le> 2 ^ 53 \<Longrightarrow> x < huge"
proof -
  have "(2::real) ^ 53 < 2 ^ 1024" by (rule power_strict_increasing) simp_all
  then show "x \<le> 2 ^ 53 \<Longrightarrow> x < huge" unfolding huge_def by linarith
qed

text \<open>An integer of at most 53 bits divided by a power of two is a binary64 value.\<close>

lemma div64_pow2:
  assumes "\<bar>m\<bar> < 2 ^ 53" "n \<le> 1074"
  shows "div64 (ofInt m) (Finite (2 ^ n)) = Finite (real_of_int m / 2 ^ n)"
proof -
  have e: "real_of_int m / 2 ^ n = real_of_int m * 2 powi (- int n)"
    by (simp add: power_int_minus_divide)
  have "real_of_int \<bar>m\<bar> < real_of_int (2 ^ 53)" using assms(1) by (rule of_int_less_iff [THEN iffD2])
  then have m: "\<bar>real_of_int m\<bar> < 2 ^ 53" by simp
  have "\<bar>real_of_int m / 2 ^ n\<bar> = \<bar>real_of_int m\<bar> / 2 ^ n" by simp
  also have "\<dots> \<le> \<bar>real_of_int m\<bar> / 1" by (intro divide_left_mono) simp_all
  finally have "\<bar>real_of_int m / 2 ^ n\<bar> \<le> 2 ^ 53" using m by simp
  then have h: "\<bar>real_of_int m / 2 ^ n\<bar> < huge" by (rule huge_gt)
  have "round64 (real_of_int m / 2 ^ n) = Finite (real_of_int m / 2 ^ n)"
    by (rule round64_exact [OF e assms(1) _ h]) (use assms(2) in simp)
  then show ?thesis by (simp add: ofInt_def)
qed

lemma pcm16ToFloat_eq: "pcm16ToFloat v = Finite (real_of_int (sint v) / 32768)"
proof -
  have "- 32768 \<le> sint v \<and> sint v \<le> 32767"
    using sint_greater_eq [of v] sint_less [of v] by simp
  then have "\<bar>sint v\<bar> \<le> 32768" by linarith
  then have "\<bar>sint v\<bar> < 2 ^ 53" by simp
  from div64_pow2 [OF this, of 15] show ?thesis by (simp add: pcm16ToFloat_def del: of_int_sint)
qed

section \<open>Decoding a PCM24 sample\<close>

lemma uint_byte_mod: "uint (b :: byte) mod 256 = uint b"
  using uint_lt2p [of b] by simp

lemma le24_concat: "le24 b0 b1 b2 = concat_bit 8 (uint b0) (concat_bit 8 (uint b1) (uint b2))"
  by (simp add: le24_def concat_bit_eq push_bit_eq_mult take_bit_eq_mod uint_byte_mod)

lemma le24_bounds: "0 \<le> le24 b0 b1 b2 \<and> le24 b0 b1 b2 < 2 ^ 24"
proof -
  have "uint b0 < 256" "uint b1 < 256" "uint b2 < 256" "0 \<le> uint b0" "0 \<le> uint b1" "0 \<le> uint b2"
    using uint_lt2p [of b0] uint_lt2p [of b1] uint_lt2p [of b2] by simp_all
  then show ?thesis unfolding le24_def by simp
qed

lemma byte_bit: "bit (b :: byte) n \<Longrightarrow> n < 8"
  by (auto dest: bit_imp_le_length)

lemma raw24: "(ucast b0 OR push_bit 8 (ucast b1) OR push_bit 16 (ucast b2) :: int32) = word_of_int (le24 b0 b1 b2)"
  unfolding le24_concat
  apply (rule bit_word_eqI)
  apply (auto simp add: bit_simps dest: byte_bit)
  done

lemma uint_raw24: "uint (word_of_int (le24 b0 b1 b2) :: int32) = le24 b0 b1 b2"
  using le24_bounds [of b0 b1 b2] by (simp add: uint_word_of_int take_bit_eq_mod)

lemma bit_le24:
  "bit (le24 b0 b1 b2) n \<longleftrightarrow>
     (n < 8 \<and> bit b0 n) \<or> (8 \<le> n \<and> n < 16 \<and> bit b1 (n - 8)) \<or> (16 \<le> n \<and> bit b2 (n - 16))"
  unfolding le24_concat by (auto simp add: bit_simps dest: byte_bit)

lemma signed24:
  "signed_take_bit 23 (le24 b0 b1 b2) =
     (if le24 b0 b1 b2 < 2 ^ 23 then le24 b0 b1 b2 else le24 b0 b1 b2 - 2 ^ 24)"
proof -
  define u where "u = le24 b0 b1 b2"
  have b: "0 \<le> u" "u < 16777216" using le24_bounds [of b0 b1 b2] by (simp_all add: u_def)
  have s: "signed_take_bit 23 u = (u + 8388608) mod 16777216 - 8388608"
    by (simp add: signed_take_bit_eq_take_bit_shift take_bit_eq_mod)
  show ?thesis
  proof (cases "u < 8388608")
    case True
    then have "(u + 8388608) mod 16777216 = u + 8388608"
      using b by (intro mod_pos_pos_trivial) simp_all
    with s True show ?thesis by (simp add: u_def)
  next
    case False
    have "(u + 8388608) mod 16777216 = (u + 8388608 - 16777216) mod 16777216"
      by (simp only: minus_mod_self2)
    also have "\<dots> = u + 8388608 - 16777216"
      using b False by (intro mod_pos_pos_trivial) simp_all
    finally show ?thesis using s False by (simp add: u_def)
  qed
qed

lemma bit_neg24: "bit (- 16777216 :: int32) n \<longleftrightarrow> 24 \<le> n \<and> n < 32"
proof -
  have "(- 16777216 :: int32) = - (2 ^ 24)" by simp
  then show ?thesis by (simp only: bit_minus_exp_iff) auto
qed

lemma bit_neg24_int: "bit (- 16777216 :: int) n \<longleftrightarrow> 24 \<le> n"
proof -
  have "(- 16777216 :: int) = - (2 ^ 24)" by simp
  then show ?thesis by (simp only: bit_minus_exp_iff) auto
qed

lemma sext24:
  fixes v :: int32
  assumes "v = ucast b0 OR push_bit 8 (ucast b1) OR push_bit 16 (ucast b2)"
  shows "sint (if v AND 0x800000 \<noteq> 0 then v OR NOT 0xffffff else v) = signed_take_bit 23 (le24 b0 b1 b2)"
proof -
  have v: "v = word_of_int (le24 b0 b1 b2)" using assms raw24 by simp
  have c: "(0x800000 :: int32) = 2 ^ 23" by simp
  have m: "NOT (0xffffff :: int32) = - 16777216" by simp
  have t: "v AND 0x800000 \<noteq> 0 \<longleftrightarrow> bit b2 7"
    unfolding c and_exp_eq_0_iff_not_bit v by (simp add: bit_word_of_int_iff bit_le24)
  have hi: "\<not> bit b2 (n - 16)" if "24 \<le> n" for n
    using that byte_bit [of b2 "n - 16"] by auto
  have "bit (sint (if bit b2 7 then word_of_int (le24 b0 b1 b2) OR - 16777216
          else (word_of_int (le24 b0 b1 b2) :: int32))) n
      \<longleftrightarrow> bit (signed_take_bit 23 (le24 b0 b1 b2)) n" for n
  proof -
    consider "n < 23" | "n = 23" | "24 \<le> n" by linarith
    then show ?thesis
    proof cases
      case 1
      then show ?thesis
        by (simp add: bit_sint_iff bit_signed_take_bit_iff bit_word_of_int_iff
            bit_le24 bit_or_iff bit_neg24 bit_neg24_int min_def)
    next
      case 2
      then show ?thesis
        by (simp add: bit_sint_iff bit_signed_take_bit_iff bit_word_of_int_iff
            bit_le24 bit_or_iff bit_neg24 bit_neg24_int min_def)
    next
      case 3
      then show ?thesis
        using hi [of n] hi [of 31]
        by (simp add: bit_sint_iff bit_signed_take_bit_iff bit_word_of_int_iff
            bit_le24 bit_or_iff bit_neg24 bit_neg24_int min_def) linarith?
    qed
  qed
  then show ?thesis
    unfolding t m unfolding v by (rule bit_eqI)
qed


section \<open>The sample loops keep the shape and the range\<close>

lemma allSamples_update:
  assumes "allSamples P S" "P v"
  shows "allSamples P (S[ch := (S ! ch)[i := v]])"
proof (cases "ch < length S")
  case True
  then have "S ! ch \<in> set S" by simp
  then have "\<forall>x\<in>set (S ! ch). P x"
    using assms(1) by (simp add: allSamples_def list_all_iff)
  then have "\<forall>x\<in>set ((S ! ch)[i := v]). P x"
    using assms(2) set_update_subset_insert [of "S ! ch" i v] by blast
  then show ?thesis
    using assms(1) set_update_subset_insert [of S ch "(S ! ch)[i := v]"]
    unfolding allSamples_def list_all_iff by blast
next
  case False
  then have "S[ch := (S ! ch)[i := v]] = S" by (intro list_update_beyond) simp
  then show ?thesis using assms by simp
qed

lemma lengths_update: "map length (S[ch := (S ! ch)[i := v]]) = map length S"
proof (cases "ch < length S")
  case True
  then show ?thesis by (simp add: map_update list_update_same_conv)
next
  case False
  then have "S[ch := (S ! ch)[i := v]] = S" by (intro list_update_beyond) simp
  then show ?thesis by simp
qed

lemma readChannels_inv:
  assumes "\<And>r v r'. rd r = Inr (v, r') \<Longrightarrow> P v"
    and "readChannels rd i chs S r = Inr (S', r')"
    and "allSamples P S"
  shows "allSamples P S' \<and> map length S' = map length S"
  using assms(2,3)
proof (induction chs arbitrary: S r)
  case Nil
  then show ?case by simp
next
  case (Cons ch chs)
  from Cons.prems(1) obtain v r1 where rd: "rd r = Inr (v, r1)"
    and rest: "readChannels rd i chs (S[ch := (S ! ch)[i := v]]) r1 = Inr (S', r')"
    by (auto split: sum.splits)
  have "allSamples P (S[ch := (S ! ch)[i := v]])"
    using Cons.prems(2) assms(1) [OF rd] by (rule allSamples_update)
  from Cons.IH [OF rest this] show ?case by (simp add: lengths_update)
qed

lemma readFrames_inv:
  assumes "\<And>r v r'. rd r = Inr (v, r') \<Longrightarrow> P v"
    and "readFrames rd is chs S r = Inr (S', r')"
    and "allSamples P S"
  shows "allSamples P S' \<and> map length S' = map length S"
  using assms(2,3)
proof (induction "is" arbitrary: S r)
  case Nil
  then show ?case by simp
next
  case (Cons i "is")
  from Cons.prems(1) obtain S1 r1 where one: "readChannels rd i chs S r = Inr (S1, r1)"
    and rest: "readFrames rd is chs S1 r1 = Inr (S', r')"
    by (auto split: sum.splits)
  from readChannels_inv [of rd P, OF assms(1) one Cons.prems(2)]
  have "allSamples P S1" "map length S1 = map length S" by simp_all
  with Cons.IH [OF rest] show ?case by simp
qed

lemma sampleIn_mono: "sampleIn lo hi v \<Longrightarrow> lo' \<le> lo \<Longrightarrow> hi \<le> hi' \<Longrightarrow> sampleIn lo' hi' v"
  by (auto simp: sampleIn_def split: float64.splits)

lemma sint16_bounds: "- 32768 \<le> (signed (v :: int16) :: real) \<and> (signed v :: real) \<le> 32767"
proof -
  have "- 32768 \<le> sint v \<and> sint v \<le> 32767"
    using sint_greater_eq [of v] sint_less [of v] by simp
  then have "- 32768 \<le> real_of_int (sint v) \<and> real_of_int (sint v) \<le> 32767"
    by linarith
  then show ?thesis by simp
qed

lemma readPCM16_range: "readPCM16 r = Inr (v, r') \<Longrightarrow> sampleIn (- 1) (32767 / 32768) v"
  using sint16_bounds
  by (auto simp: readPCM16_def pcm16ToFloat_eq sampleIn_def split: sum.splits)

lemma sanitizeRead_range: "sampleIn (- 1) 1 (sanitizeRead v)"
  by (cases v) (auto simp: sanitizeRead_def sampleIn_def gt64_def Let_def)

lemma readFloat32_range: "readFloat32 r = Inr (v, r') \<Longrightarrow> sampleIn (- 1) 1 v"
  by (auto simp: readFloat32_def sanitizeRead_range split: sum.splits)


lemma readPCM24Sample_Inr:
  assumes "readPCM24Sample r = Inr (v, r')"
  obtains b0 b1 b2 where "r = b0 # b1 # b2 # r'"
    and "sint v = (if le24 b0 b1 b2 < 2 ^ 23 then le24 b0 b1 b2 else le24 b0 b1 b2 - 2 ^ 24)"
proof -
  from assms obtain b where rf: "ReadFull 3 r = Inr (b, r')"
    and v: "v = (let w = ucast (b ! 0) OR push_bit 8 (ucast (b ! 1)) OR push_bit 16 (ucast (b ! 2)) in
               if w AND 0x800000 \<noteq> 0 then w OR NOT 0xffffff else w)"
    by (auto simp: readPCM24Sample_def Let_def split: sum.splits)
  from ReadFull_length [OF rf] have l: "length b = 3" and r: "r = b @ r'" by simp_all
  from l obtain b0 b1 b2 where b: "b = [b0, b1, b2]"
    by (auto simp: length_Suc_conv numeral_3_eq_3)
  define w :: int32 where "w = ucast b0 OR push_bit 8 (ucast b1) OR push_bit 16 (ucast b2)"
  have "v = (if w AND 0x800000 \<noteq> 0 then w OR NOT 0xffffff else w)"
    unfolding v b w_def by (simp add: Let_def)
  then have "sint v = signed_take_bit 23 (le24 b0 b1 b2)"
    using sext24 [OF w_def] by (simp only:)
  with that [of b0 b1 b2] r b show ?thesis by (simp add: signed24)
qed

lemma readPCM24_range:
  assumes "readPCM24 r = Inr (x, r')"
  shows "sampleIn (- 1) (8388607 / 8388608) x"
proof -
  from assms obtain v where s: "readPCM24Sample r = Inr (v, r')"
    and x0: "x = div64 (ofInt (sint v)) (Finite 8388608)"
    by (auto simp: readPCM24_def split: sum.splits)
  from s obtain b0 b1 b2 where
    e: "sint v = (if le24 b0 b1 b2 < 2 ^ 23 then le24 b0 b1 b2 else le24 b0 b1 b2 - 2 ^ 24)"
    by (rule readPCM24Sample_Inr)
  have b: "- 8388608 \<le> sint v \<and> sint v \<le> 8388607"
    using le24_bounds [of b0 b1 b2] unfolding e by (simp split: if_splits)
  then have "\<bar>sint v\<bar> \<le> 8388608" by linarith
  then have "\<bar>sint v\<bar> < 2 ^ 53" by simp
  from div64_pow2 [OF this, of 23] have x: "x = Finite (real_of_int (sint v) / 8388608)"
    unfolding x0 by (simp del: of_int_sint)
  note b
  then have "- 8388608 \<le> real_of_int (sint v) \<and> real_of_int (sint v) \<le> 8388607"
    by linarith
  then show ?thesis unfolding x sampleIn_def by (simp del: of_int_sint)
qed

lemma allSamples_zero: "P (Finite 0) \<Longrightarrow> allSamples P (replicate c (replicate n (Finite 0)))"
  by (simp add: allSamples_def list_all_iff)

lemma allSamples_mono: "allSamples P S \<Longrightarrow> (\<And>v. P v \<Longrightarrow> Q v) \<Longrightarrow> allSamples Q S"
  by (auto simp: allSamples_def list_all_iff)

lemma orErr_readFrames_inv:
  assumes "\<And>r v r'. rd r = Inr (v, r') \<Longrightarrow> P v"
    and "orErr w (readFrames rd is chs S r) = Inr (S', r')"
    and "allSamples P S"
  shows "allSamples P S' \<and> map length S' = map length S"
  using readFrames_inv [of rd P "is" chs S r S' r'] assms by simp

lemma decodeSamples_inv:
  assumes "decodeSamples decodePCM f n c S r = Inr (S', r')" "allSamples (\<lambda>v. v = Finite 0) S"
  shows "map length S' = map length S
    \<and> allSamples (sampleIn (- 1) 1) S'
    \<and> (audioFormat f = 1 \<and> bitsPerSample f = 16 \<longrightarrow> allSamples (sampleIn (- 1) (32767 / 32768)) S')
    \<and> (audioFormat f = 1 \<and> bitsPerSample f = 24 \<longrightarrow> allSamples (sampleIn (- 1) (8388607 / 8388608)) S')"
proof -
  have z: "allSamples (sampleIn (- 1) hi) S" if "0 \<le> hi" for hi
    by (rule allSamples_mono [OF assms(2)]) (simp add: sampleIn_def that)
  consider (p16) "audioFormat f = 1" "bitsPerSample f = 16"
    | (p24) "audioFormat f = 1" "bitsPerSample f = 24"
    | (f32) "audioFormat f = 3" "bitsPerSample f = 32"
    using assms(1) by (auto simp: decodeSamples_def decodePCM_def split: if_splits)
  then show ?thesis
  proof cases
    case p16
    with assms(1) have "orErr ReadPCM16Sample (readFrames readPCM16 [0..<n] [0..<c] S r) = Inr (S', r')"
      by (simp add: decodeSamples_def decodePCM_def)
    from orErr_readFrames_inv [of readPCM16 "sampleIn (- 1) (32767 / 32768)", OF readPCM16_range this z]
    have "allSamples (sampleIn (- 1) (32767 / 32768)) S'" "map length S' = map length S" by simp_all
    moreover from this(1) have "allSamples (sampleIn (- 1) 1) S'"
      by (rule allSamples_mono) (auto elim: sampleIn_mono)
    ultimately show ?thesis using p16 by simp
  next
    case p24
    with assms(1) have "orErr ReadPCM24Sample (readFrames readPCM24 [0..<n] [0..<c] S r) = Inr (S', r')"
      by (simp add: decodeSamples_def decodePCM_def)
    from orErr_readFrames_inv [of readPCM24 "sampleIn (- 1) (8388607 / 8388608)", OF readPCM24_range this z]
    have "allSamples (sampleIn (- 1) (8388607 / 8388608)) S'" "map length S' = map length S" by simp_all
    moreover from this(1) have "allSamples (sampleIn (- 1) 1) S'"
      by (rule allSamples_mono) (auto elim: sampleIn_mono)
    ultimately show ?thesis using p24 by simp
  next
    case f32
    with assms(1) have "orErr ReadFloat32Sample (readFrames readFloat32 [0..<n] [0..<c] S r) = Inr (S', r')"
      by (simp add: decodeSamples_def)
    from orErr_readFrames_inv [of readFloat32 "sampleIn (- 1) 1", OF readFloat32_range this z]
    show ?thesis using f32 by simp
  qed
qed


section \<open>What a successful read returns\<close>

lemma readDataChunk_Inr:
  assumes "readDataChunk pcm fmtChunk e cs r = Inr a"
  obtains f S r' where "fmtChunk = Some f" "uint (numChannels f) = e" "blockAlign f \<noteq> 0"
    "cs mod ucast (blockAlign f) = 0"
    "decodeSamples pcm f (unat (cs div ucast (blockAlign f))) (nat e)
       (replicate (nat e) (replicate (unat (cs div ucast (blockAlign f))) (Finite 0))) r = Inr (S, r')"
    "a = \<lparr>SampleRate = sampleRate f, Samples = S, NumSamples = int (unat (cs div ucast (blockAlign f)))\<rparr>"
proof -
  from assms obtain f where f: "fmtChunk = Some f"
    by (cases fmtChunk) (simp_all add: readDataChunk_def)
  have c1: "uint (numChannels f) = e"
    using assms unfolding f readDataChunk_def by (simp split: if_splits)
  have c2: "blockAlign f \<noteq> 0"
    using assms unfolding f readDataChunk_def by (simp split: if_splits)
  have c3: "cs mod ucast (blockAlign f) = 0"
    using assms unfolding f readDataChunk_def by (simp split: if_splits)
  from assms obtain S r' where
    d: "decodeSamples pcm f (unat (cs div ucast (blockAlign f))) (nat e)
       (replicate (nat e) (replicate (unat (cs div ucast (blockAlign f))) (Finite 0))) r = Inr (S, r')"
    and a: "a = \<lparr>SampleRate = sampleRate f, Samples = S, NumSamples = int (unat (cs div ucast (blockAlign f)))\<rparr>"
    unfolding f readDataChunk_def using c1 c2 c3
    by (auto simp: bindE_Inr Let_def mod2_eq1_odd split: if_splits)
  show ?thesis by (rule that [OF f c1 c2 c3 d a])
qed

lemma readChunks_step:
  assumes "readChunks pcm fmtChunk e r = Inr a"
  obtains (fmt) chunkID r1 cs r2 f r3 where "ReadFull 4 r = Inr (chunkID, r1)" "readUint32 r1 = Inr (cs, r2)"
      "chunkID = writeString ''fmt ''" "readFmtChunk cs r2 = Inr (f, r3)"
      "readChunks pcm (Some f) e r3 = Inr a"
  | (data) chunkID r1 cs r2 where "ReadFull 4 r = Inr (chunkID, r1)" "readUint32 r1 = Inr (cs, r2)"
      "chunkID \<noteq> writeString ''fmt ''" "chunkID = writeString ''data''"
      "readDataChunk pcm fmtChunk e cs r2 = Inr a"
  | (skip) chunkID r1 cs r2 r3 where "ReadFull 4 r = Inr (chunkID, r1)" "readUint32 r1 = Inr (cs, r2)"
      "chunkID \<noteq> writeString ''fmt ''" "chunkID \<noteq> writeString ''data''"
      "skipChunk chunkID cs r2 = Inr r3" "readChunks pcm fmtChunk e r3 = Inr a"
proof -
  from assms obtain chunkID r1 where rf: "ReadFull 4 r = Inr (chunkID, r1)"
    by (subst (asm) readChunks.simps) (auto split: sum.splits ioError.splits)
  with assms obtain cs r2 where ru: "readUint32 r1 = Inr (cs, r2)"
    by (subst (asm) readChunks.simps) (auto simp: bindE_Inr)
  from assms rf ru have body:
    "(if chunkID = writeString ''fmt '' then
        bindE (readFmtChunk cs r2) (\<lambda>(f, r3). readChunks pcm (Some f) e r3)
      else if chunkID = writeString ''data'' then readDataChunk pcm fmtChunk e cs r2
      else bindE (skipChunk chunkID cs r2) (\<lambda>r3. readChunks pcm fmtChunk e r3)) = Inr a"
    by (subst (asm) readChunks.simps) (simp add: bindE_def orErr_def)
  show ?thesis
  proof (cases "chunkID = writeString ''fmt ''")
    case True
    with body obtain f r3 where "readFmtChunk cs r2 = Inr (f, r3)" "readChunks pcm (Some f) e r3 = Inr a"
      by (auto simp: bindE_Inr)
    with rf ru True fmt show ?thesis by blast
  next
    case False
    show ?thesis
    proof (cases "chunkID = writeString ''data''")
      case True
      with body False rf ru data show ?thesis by simp
    next
      case nd: False
      with body False obtain r3 where "skipChunk chunkID cs r2 = Inr r3" "readChunks pcm fmtChunk e r3 = Inr a"
        by (auto simp: bindE_Inr)
      with rf ru False nd skip show ?thesis by blast
    qed
  qed
qed

lemma readChunks_result:
  assumes "readChunks pcm fmtChunk e r = Inr a"
  shows "\<exists>fmt cs r'. readDataChunk pcm fmt e cs r' = Inr a"
  using assms
proof (induction r arbitrary: fmtChunk rule: length_induct)
  case (1 r)
  from "1.prems" show ?case
  proof (cases rule: readChunks_step)
    case (fmt chunkID r1 cs r2 f r3)
    then have "length r3 < length r"
      by (auto dest!: ReadFull_length readUint32_length readFmtChunk_length)
    with "1.IH" fmt(5) show ?thesis by blast
  next
    case (data chunkID r1 cs r2)
    then show ?thesis by blast
  next
    case (skip chunkID r1 cs r2 r3)
    then have "length r3 < length r"
      by (auto dest!: ReadFull_length readUint32_length skipChunk_length)
    with "1.IH" skip(6) show ?thesis by blast
  qed
qed

lemma readWAVWith_result:
  assumes "readWAVWith pcm r e = Inr a"
  shows "\<exists>fmt cs r'. readDataChunk pcm fmt e cs r' = Inr a"
  using assms
  by (auto simp: readWAVWith_def bindE_Inr split: if_splits dest: readChunks_result)

lemma readDataChunk_shape:
  assumes "readDataChunk decodePCM fmtChunk e cs r = Inr a"
  shows "list_all (\<lambda>c. int (length c) = NumSamples a) (Samples a)
    \<and> int (length (Samples a)) = e \<and> allSamples (sampleIn (- 1) 1) (Samples a)"
proof -
  from assms obtain f S r' where e: "uint (numChannels f) = e"
    and d: "decodeSamples decodePCM f (unat (cs div ucast (blockAlign f))) (nat e)
       (replicate (nat e) (replicate (unat (cs div ucast (blockAlign f))) (Finite 0))) r = Inr (S, r')"
    and a: "a = \<lparr>SampleRate = sampleRate f, Samples = S, NumSamples = int (unat (cs div ucast (blockAlign f)))\<rparr>"
    by (rule readDataChunk_Inr)
  define n where "n = unat (cs div ucast (blockAlign f))"
  have "allSamples (\<lambda>v. v = Finite 0) (replicate (nat e) (replicate n (Finite 0)))"
    by (simp add: allSamples_zero)
  from decodeSamples_inv [OF d [folded n_def] this]
  have m: "map length S = replicate (nat e) n" and r: "allSamples (sampleIn (- 1) 1) S"
    by simp_all
  from m have "length S = nat e" by (metis length_map length_replicate)
  moreover have "0 \<le> e" using e [symmetric] by simp
  moreover from m have "list_all (\<lambda>c. length c = n) S"
    by (metis (mono_tags, lifting) in_set_replicate list.pred_set list.set_map imageI)
  ultimately show ?thesis using r by (simp add: a n_def list_all_iff)
qed

section \<open>Conversion between samples and PCM16\<close>

lemma roundHalfAway_cases:
  obtains k where "0 \<le> y" "roundHalfAway y = k" "real_of_int k \<le> y + 1 / 2" "y + 1 / 2 < real_of_int k + 1"
  | k where "y < 0" "roundHalfAway y = - k" "real_of_int k \<le> - y + 1 / 2" "- y + 1 / 2 < real_of_int k + 1"
proof (cases "y < 0")
  case True
  define k where "k = \<lfloor>- y + 1 / 2\<rfloor>"
  have "real_of_int k \<le> - y + 1 / 2" "- y + 1 / 2 < real_of_int k + 1"
    unfolding k_def by linarith+
  moreover have "roundHalfAway y = - k" using True by (simp add: roundHalfAway_def k_def)
  ultimately show ?thesis using True that(2) by blast
next
  case False
  define k where "k = \<lfloor>y + 1 / 2\<rfloor>"
  have "real_of_int k \<le> y + 1 / 2" "y + 1 / 2 < real_of_int k + 1"
    unfolding k_def by linarith+
  moreover have "roundHalfAway y = k" using False by (simp add: roundHalfAway_def k_def)
  ultimately show ?thesis using False that(1) by force
qed

lemma roundHalfAway_near: "\<bar>real_of_int (roundHalfAway y) - y\<bar> \<le> 1 / 2"
proof (rule roundHalfAway_cases [of y])
  fix k assume e: "roundHalfAway y = k"
    and b: "real_of_int k \<le> y + 1 / 2" "y + 1 / 2 < real_of_int k + 1"
  show ?thesis unfolding e using b by linarith
next
  fix k assume e: "roundHalfAway y = - k"
    and b: "real_of_int k \<le> - y + 1 / 2" "- y + 1 / 2 < real_of_int k + 1"
  show ?thesis unfolding e of_int_minus using b by linarith
qed

lemma roundHalfAway_nearest: "\<bar>real_of_int (roundHalfAway y) - y\<bar> \<le> \<bar>real_of_int k - y\<bar>"
proof (rule ccontr)
  assume a: "\<not> ?thesis"
  have n: "\<bar>real_of_int (roundHalfAway y) - y\<bar> \<le> 1 / 2" by (rule roundHalfAway_near)
  from a n have "\<bar>real_of_int (roundHalfAway y) - real_of_int k\<bar> < 1" by linarith
  then have "\<bar>real_of_int (roundHalfAway y - k)\<bar> < 1" by simp
  then have "\<bar>roundHalfAway y - k\<bar> < 1" by linarith
  then have "roundHalfAway y = k" by linarith
  with a show False by simp
qed

lemma roundHalfAway_tie:
  assumes "\<bar>real_of_int (roundHalfAway y) - y\<bar> = 1 / 2"
  shows "\<bar>y\<bar> < \<bar>real_of_int (roundHalfAway y)\<bar>"
proof (rule roundHalfAway_cases [of y])
  fix k assume p: "0 \<le> y" and e: "roundHalfAway y = k"
    and b: "real_of_int k \<le> y + 1 / 2" "y + 1 / 2 < real_of_int k + 1"
  show ?thesis using assms unfolding e using p b by linarith
next
  fix k assume p: "y < 0" and e: "roundHalfAway y = - k"
    and b: "real_of_int k \<le> - y + 1 / 2" "- y + 1 / 2 < real_of_int k + 1"
  show ?thesis using assms unfolding e of_int_minus using p b by linarith
qed

lemma roundHalfAway_bound:
  assumes "- real_of_int n \<le> y" "y \<le> real_of_int n"
  shows "- n \<le> roundHalfAway y \<and> roundHalfAway y \<le> n"
proof (rule roundHalfAway_cases [of y])
  fix k assume p: "0 \<le> y" and e: "roundHalfAway y = k"
    and b: "real_of_int k \<le> y + 1 / 2" "y + 1 / 2 < real_of_int k + 1"
  show ?thesis unfolding e using assms p b by linarith
next
  fix k assume p: "y < 0" and e: "roundHalfAway y = - k"
    and b: "real_of_int k \<le> - y + 1 / 2" "- y + 1 / 2 < real_of_int k + 1"
  show ?thesis unfolding e using assms p b by linarith
qed

lemma truncToInt_of_int [simp]: "truncToInt (real_of_int k) = k"
  by (simp add: truncToInt_def)

lemma sint_int16: "- 32768 \<le> k \<Longrightarrow> k \<le> 32767 \<Longrightarrow> sint (word_of_int k :: int16) = k"
  by (simp add: sint_sbintrunc' signed_take_bit_int_eq_self)

lemma mul64_32767:
  assumes "- 1 < x" "x < 1"
  shows "\<exists>y. mul64 (Finite x) (Finite 32767) = Finite y \<and> \<bar>y - x * 32767\<bar> \<le> 1 / 2 ^ 39
    \<and> \<bar>y\<bar> < 32768"
proof -
  have a: "\<bar>x * 32767\<bar> < 32767" using assms by (simp add: abs_less_iff)
  then have "\<bar>x * 32767\<bar> < 2 powi (14 + 1)" by simp
  from round64_error [OF this] obtain y where y: "round64 (x * 32767) = Finite y"
    and e: "\<bar>y - x * 32767\<bar> \<le> 2 powi (14 - 53)" by auto
  have p: "(2::real) powi (14 - 53) = 1 / 2 ^ 39" by (simp add: power_int_minus_divide)
  have q: "(1::real) / 2 ^ 39 \<le> 1" by simp
  from e have e': "\<bar>y - x * 32767\<bar> \<le> 1 / 2 ^ 39" unfolding p .
  from a e' q have "\<bar>y\<bar> < 32768" by linarith
  with y e' show ?thesis by simp
qed

lemma floatToPCM16_mid:
  assumes "- 1 < x" "x < 1" "mul64 (Finite x) (Finite 32767) = Finite y"
  shows "sint (floatToPCM16 (Finite x)) = roundHalfAway y"
proof -
  from mul64_32767 [OF assms(1,2)] assms(3)
  have y: "\<bar>y\<bar> < 32768" and e: "\<bar>y - x * 32767\<bar> \<le> 1 / 2 ^ 39" by auto
  from y have "- real_of_int 32768 \<le> y" "y \<le> real_of_int 32768" by (simp_all add: abs_less_iff)
  then have b: "- 32768 \<le> roundHalfAway y \<and> roundHalfAway y \<le> 32768"
    by (rule roundHalfAway_bound)
  have "roundHalfAway y \<noteq> 32768"
  proof
    assume r: "roundHalfAway y = 32768"
    have "\<bar>real_of_int (roundHalfAway y) - y\<bar> \<le> 1 / 2" by (rule roundHalfAway_near)
    then have n: "\<bar>32768 - y\<bar> \<le> 1 / 2" unfolding r by simp
    have q: "(1::real) / 2 ^ 39 \<le> 1 / 4" by simp
    have "\<bar>x * 32767\<bar> < 32767" using assms by (simp add: abs_less_iff)
    with n e q show False by linarith
  qed
  with b have "- 32768 \<le> roundHalfAway y \<and> roundHalfAway y \<le> 32767" by linarith
  then show ?thesis
    using assms by (simp add: floatToPCM16_def ge64_def le64_def sint_int16 del: mul64.simps)
qed

lemma floatToPCM16_special:
  "floatToPCM16 NaN = 0 \<and> floatToPCM16 PosInf = 0 \<and> floatToPCM16 NegInf = 0"
  by code_simp

lemma floatToPCM16_high: "1 \<le> x \<Longrightarrow> floatToPCM16 (Finite x) = 32767"
  by (simp add: floatToPCM16_def ge64_def le64_def)

lemma floatToPCM16_low: "x \<le> - 1 \<Longrightarrow> floatToPCM16 (Finite x) = - 32768"
  by (simp add: floatToPCM16_def ge64_def le64_def)

text \<open>
  The integer need not be nearest to the exact product. The binary64 value
  \<open>35185445863425 / 2^61\<close> (the quotient \<^verbatim>\<open>0.5 / 32767.0\<close>) times 32767 is \<open>1/2 - 2^-61\<close>,
  which rounds to the binary64 value \<open>1/2\<close>; \<^verbatim>\<open>math.Round\<close> takes that to 1, while 0 is
  nearer to the exact product.
\<close>

theorem floatToPCM16_exact_product_counterexample:
  "round64 (35185445863425 / 2305843009213693952) = Finite (35185445863425 / 2305843009213693952)
   \<and> sint (floatToPCM16 (Finite (35185445863425 / 2305843009213693952))) = 1
   \<and> \<bar>real_of_int 0 - 35185445863425 / 2305843009213693952 * 32767\<bar>
       < \<bar>real_of_int 1 - 35185445863425 / 2305843009213693952 * 32767\<bar>"
  by code_simp

text \<open>
  Claim C4, as amended. \<open>floatToPCM16\<close> maps NaN and both infinities to 0, every \<open>v \<ge> 1\<close>
  to 32767 and every \<open>v \<le> -1\<close> to -32768. Every other \<open>v\<close> goes to the integer nearest
  the binary64 product \<open>v * 32767.0\<close>, which lies within \<open>2^-39\<close> of the exact product; where
  two integers are equally near the product, it is the one away from zero.
\<close>

theorem floatToPCM16_cases:
  "floatToPCM16 NaN = 0 \<and> floatToPCM16 PosInf = 0 \<and> floatToPCM16 NegInf = 0
   \<and> (1 \<le> x \<longrightarrow> sint (floatToPCM16 (Finite x)) = 32767)
   \<and> (x \<le> - 1 \<longrightarrow> sint (floatToPCM16 (Finite x)) = - 32768)
   \<and> (- 1 < x \<and> x < 1 \<longrightarrow>
        (\<exists>y. mul64 (Finite x) (Finite 32767) = Finite y
           \<and> \<bar>y - x * 32767\<bar> \<le> 1 / 2 ^ 39
           \<and> (\<forall>k. \<bar>real_of_int (sint (floatToPCM16 (Finite x))) - y\<bar> \<le> \<bar>real_of_int k - y\<bar>)
           \<and> (\<bar>real_of_int (sint (floatToPCM16 (Finite x))) - y\<bar> = 1 / 2 \<longrightarrow>
                \<bar>y\<bar> < \<bar>real_of_int (sint (floatToPCM16 (Finite x)))\<bar>)))"
proof -
  have mid: "\<exists>y. mul64 (Finite x) (Finite 32767) = Finite y
           \<and> \<bar>y - x * 32767\<bar> \<le> 1 / 2 ^ 39
           \<and> (\<forall>k. \<bar>real_of_int (sint (floatToPCM16 (Finite x))) - y\<bar> \<le> \<bar>real_of_int k - y\<bar>)
           \<and> (\<bar>real_of_int (sint (floatToPCM16 (Finite x))) - y\<bar> = 1 / 2 \<longrightarrow>
                \<bar>y\<bar> < \<bar>real_of_int (sint (floatToPCM16 (Finite x)))\<bar>)"
    if lo: "- 1 < x" and hi: "x < 1"
  proof -
    from mul64_32767 [OF lo hi] obtain y where y: "mul64 (Finite x) (Finite 32767) = Finite y"
      and e: "\<bar>y - x * 32767\<bar> \<le> 1 / 2 ^ 39" by blast
    note r = floatToPCM16_mid [OF lo hi y]
    show ?thesis
      unfolding r using y e roundHalfAway_nearest [of y] roundHalfAway_tie [of y] by blast
  qed
  have h: "1 \<le> x \<longrightarrow> sint (floatToPCM16 (Finite x)) = 32767"
    by (simp add: floatToPCM16_high)
  have l: "x \<le> - 1 \<longrightarrow> sint (floatToPCM16 (Finite x)) = - 32768"
    by (simp add: floatToPCM16_low)
  from mid have m: "- 1 < x \<and> x < 1 \<longrightarrow>
        (\<exists>y. mul64 (Finite x) (Finite 32767) = Finite y
           \<and> \<bar>y - x * 32767\<bar> \<le> 1 / 2 ^ 39
           \<and> (\<forall>k. \<bar>real_of_int (sint (floatToPCM16 (Finite x))) - y\<bar> \<le> \<bar>real_of_int k - y\<bar>)
           \<and> (\<bar>real_of_int (sint (floatToPCM16 (Finite x))) - y\<bar> = 1 / 2 \<longrightarrow>
                \<bar>y\<bar> < \<bar>real_of_int (sint (floatToPCM16 (Finite x)))\<bar>))" by blast
  note s = floatToPCM16_special
  show ?thesis
    by (intro conjI) (rule s [THEN conjunct1] s [THEN conjunct2, THEN conjunct1]
        s [THEN conjunct2, THEN conjunct2] h l m)+
qed

lemma mul64_half: "mul64 (Finite (1 / 2)) (Finite 32767) = Finite (32767 / 2)"
  by code_simp

lemma floatToPCM16_half: "sint (floatToPCM16 (Finite (1 / 2))) = 16384"
  by code_simp

theorem floatToPCM16_cases_witness:
  "sint (floatToPCM16 (Finite 1)) = 32767
   \<and> sint (floatToPCM16 (Finite (- 1))) = - 32768
   \<and> mul64 (Finite (1 / 2)) (Finite 32767) = Finite (32767 / 2)
   \<and> sint (floatToPCM16 (Finite (1 / 2))) = 16384
   \<and> \<bar>real_of_int (sint (floatToPCM16 (Finite (1 / 2)))) - 32767 / 2\<bar>
       \<le> \<bar>real_of_int 16383 - 32767 / 2\<bar>
   \<and> \<bar>32767 / 2 :: real\<bar> < \<bar>real_of_int (sint (floatToPCM16 (Finite (1 / 2))))\<bar>"
proof -
  from floatToPCM16_cases [of 1] have a: "sint (floatToPCM16 (Finite 1)) = 32767" by simp
  from floatToPCM16_cases [of "- 1"] have b: "sint (floatToPCM16 (Finite (- 1))) = - 32768" by simp
  from floatToPCM16_cases [of "1 / 2"] obtain y where
    y: "mul64 (Finite (1 / 2)) (Finite 32767) = Finite y"
    and n: "\<forall>k. \<bar>real_of_int (sint (floatToPCM16 (Finite (1 / 2)))) - y\<bar> \<le> \<bar>real_of_int k - y\<bar>"
    and t: "\<bar>real_of_int (sint (floatToPCM16 (Finite (1 / 2)))) - y\<bar> = 1 / 2 \<longrightarrow>
            \<bar>y\<bar> < \<bar>real_of_int (sint (floatToPCM16 (Finite (1 / 2))))\<bar>"
    by auto
  from y have yv: "y = 32767 / 2" unfolding mul64_half by simp
  have "\<bar>real_of_int (sint (floatToPCM16 (Finite (1 / 2)))) - y\<bar> = 1 / 2"
    unfolding floatToPCM16_half yv by simp
  with t have t': "\<bar>32767 / 2 :: real\<bar> < \<bar>real_of_int (sint (floatToPCM16 (Finite (1 / 2))))\<bar>"
    unfolding yv by blast
  from n have n': "\<bar>real_of_int (sint (floatToPCM16 (Finite (1 / 2)))) - 32767 / 2\<bar>
       \<le> \<bar>real_of_int 16383 - 32767 / 2\<bar>" unfolding yv by blast
  show ?thesis
    by (intro conjI) (rule a b mul64_half floatToPCM16_half n' t')+
qed

section \<open>Invariants of the frames read\<close>

lemma readWAV_stereoFile: "readWAV stereoFile 2 = Inr stereoOut"
  by code_simp

text \<open>
  Claim C8. Every frame \<open>readWAV\<close> returns has channels of one length, \<open>NumSamples\<close> is
  that length, and there are as many channels as were asked for.
\<close>

theorem readWAV_shape:
  assumes "readWAV r expectedChannels = Inr a"
  shows "(\<forall>c \<in> set (Samples a). int (length c) = NumSamples a)
    \<and> (\<forall>c \<in> set (Samples a). \<forall>d \<in> set (Samples a). length c = length d)
    \<and> int (length (Samples a)) = expectedChannels"
proof -
  from assms obtain fmt cs r' where "readDataChunk decodePCM fmt expectedChannels cs r' = Inr a"
    unfolding readWAV_def by (blast dest: readWAVWith_result)
  from readDataChunk_shape [OF this]
  have l: "\<forall>c \<in> set (Samples a). int (length c) = NumSamples a"
    and n: "int (length (Samples a)) = expectedChannels"
    by (simp_all add: list_all_iff)
  from l have "\<forall>c \<in> set (Samples a). \<forall>d \<in> set (Samples a). int (length c) = int (length d)"
    by simp
  then have "\<forall>c \<in> set (Samples a). \<forall>d \<in> set (Samples a). length c = length d"
    by (simp only: of_nat_eq_iff)
  with l n show ?thesis by blast
qed


theorem readWAV_shape_witness:
  "readWAV stereoFile 2 = Inr stereoOut
   \<and> list_all (\<lambda>c. int (length c) = NumSamples stereoOut) (Samples stereoOut)
   \<and> int (length (Samples stereoOut)) = 2"
proof -
  note w = readWAV_shape [OF readWAV_stereoFile]
  from w have "\<forall>c \<in> set (Samples stereoOut). int (length c) = NumSamples stereoOut" by blast
  then have "list_all (\<lambda>c. int (length c) = NumSamples stereoOut) (Samples stereoOut)"
    unfolding list_all_iff .
  moreover from w have "int (length (Samples stereoOut)) = 2" by blast
  ultimately show ?thesis using readWAV_stereoFile by blast
qed

end
